theory Spec2Isabelle
  imports Main
begin

section \<open>The circular buffer of CircularBuffer.h\<close>

text \<open>
  The class template \<open>CircularBuffer<Unit>\<close> is embedded as a record with one field per
  data member (the mutex is left out: every operation here is one call, run alone).
  The \<open>int\<close> members are mathematical integers; in every state the operations below
  produce from a constructed buffer the cursors and the counter stay between 0 and
  \<open>m_unit_count\<close>, so no 32-bit operation on them wraps.

  \<open>m_buffer\<close> is the array \<open>new Unit[unit_count]\<close>, a list of \<open>unit_count\<close> units,
  indexed by element; the null pointer of a buffer with no allocation is the empty list.
  A \<open>Unit*\<close> into the array is the element index it points at.
\<close>

record 'u CircularBuffer =
  m_unit_size :: int
  m_unit_count :: int
  m_buffer_head :: int
  m_buffer_tail :: int
  m_buffer :: "'u list"
  m_used_slots :: int

text \<open>
  What stops a call instead of returning: a failed \<open>assert\<close>, a \<open>memcpy\<close> that leaves
  one of its two arrays (undefined behaviour in C++), and \<open>new Unit[n]\<close> with a
  negative length.
\<close>

datatype fault = AssertionFailed | OutOfBounds | BadArrayNewLength

subsection \<open>memcpy on arrays of units\<close>

text \<open>
  \<open>memcpy (dst + d, src + s, n * sizeof(Unit))\<close>: \<open>n\<close> whole units go from index \<open>s\<close> of
  \<open>src\<close> to index \<open>d\<close> of \<open>dst\<close>. The byte count of every call in the class is a number of
  units times \<open>m_unit_size\<close>, which the constructor sets to \<open>sizeof(Unit)\<close>, so the model
  counts units. A negative count (a huge \<open>size_t\<close>) or a range that leaves either array
  is \<open>OutOfBounds\<close>.
\<close>

definition memcpy :: "'u list \<Rightarrow> int \<Rightarrow> 'u list \<Rightarrow> int \<Rightarrow> int \<Rightarrow> fault + 'u list" where
  "memcpy dst d src s n =
     (if 0 \<le> n \<and> 0 \<le> d \<and> d + n \<le> int (length dst) \<and> 0 \<le> s \<and> s + n \<le> int (length src)
      then Inr (take (nat d) dst @ take (nat n) (drop (nat s) src) @ drop (nat (d + n)) dst)
      else Inl OutOfBounds)"

subsection \<open>Construction and reset\<close>

text \<open>The default member initialisers: all four integers 0, no storage.\<close>

definition default_members :: "'u CircularBuffer" where
  "default_members =
     \<lparr>m_unit_size = 0, m_unit_count = 0, m_buffer_head = 0, m_buffer_tail = 0,
      m_buffer = [], m_used_slots = 0\<rparr>"

definition reset :: "'u CircularBuffer \<Rightarrow> 'u CircularBuffer" where
  "reset b = b\<lparr>m_buffer_head := 0, m_buffer_tail := 0\<rparr>"

text \<open>
  \<open>CircularBuffer(int unit_count)\<close>. \<open>sizeof_Unit\<close> is \<open>sizeof(Unit)\<close> of the instantiation;
  \<open>cells i\<close> is whatever the fresh allocation holds in element \<open>i\<close>.
\<close>

definition CircularBuffer_ctor ::
  "int \<Rightarrow> (nat \<Rightarrow> 'u) \<Rightarrow> int \<Rightarrow> fault + 'u CircularBuffer" where
  "CircularBuffer_ctor sizeof_Unit cells unit_count =
     (if unit_count \<noteq> 0 then
        if unit_count < 0 then Inl BadArrayNewLength
        else Inr (reset (default_members
               \<lparr>m_unit_size := sizeof_Unit, m_unit_count := unit_count,
                m_buffer := map cells [0..<nat unit_count]\<rparr>))
      else Inr (reset (default_members
               \<lparr>m_unit_size := sizeof_Unit, m_unit_count := unit_count\<rparr>)))"

subsection \<open>Cursor addresses\<close>

text \<open>
  \<open>m_buffer.get() + offset\<close> is arithmetic on a \<open>Unit*\<close>, so \<open>offset\<close> counts elements:
  the pointer returned is at element \<open>m_buffer_head * m_unit_size\<close>.
\<close>

definition get_buffer_head :: "'u CircularBuffer \<Rightarrow> int" where
  "get_buffer_head b = (let offset = m_buffer_head b * m_unit_size b in offset)"

definition get_buffer_tail :: "'u CircularBuffer \<Rightarrow> int" where
  "get_buffer_tail b = (let offset = m_buffer_tail b * m_unit_size b in offset)"

subsection \<open>insert\_units\<close>

text \<open>
  \<open>data\<close> is the caller's array from the pointer passed on. The result is the Boolean
  returned and the buffer after the call.
\<close>

definition insert_units ::
  "'u CircularBuffer \<Rightarrow> 'u list \<Rightarrow> int \<Rightarrow> fault + (bool \<times> 'u CircularBuffer)" where
  "insert_units b data unit_count =
     (if m_unit_count b = 0 then Inr (False, b)
      else
        let fs = m_unit_count b - m_used_slots b in
        if fs < unit_count then Inr (False, b)
        else
          let p = get_buffer_head b in
          if m_buffer_head b < m_buffer_tail b then
            let left_in_buffer = m_buffer_tail b - m_buffer_head b in
            if left_in_buffer < unit_count then Inr (False, b)
            else
              case memcpy (m_buffer b) p data 0 unit_count of
                Inl f \<Rightarrow> Inl f
              | Inr buf \<Rightarrow>
                  Inr (True, b\<lparr>m_buffer := buf,
                                m_used_slots := m_used_slots b + unit_count,
                                m_buffer_head := m_buffer_head b + unit_count\<rparr>)
          else
            let left_in_buffer = m_unit_count b - m_buffer_head b in
            if left_in_buffer \<ge> unit_count then
              case memcpy (m_buffer b) p data 0 unit_count of
                Inl f \<Rightarrow> Inl f
              | Inr buf \<Rightarrow>
                  Inr (True, b\<lparr>m_buffer := buf,
                                m_used_slots := m_used_slots b + unit_count,
                                m_buffer_head := m_buffer_head b + unit_count\<rparr>)
            else
              if left_in_buffer + (m_buffer_tail b - 1) < unit_count then Inr (False, b)
              else
                case memcpy (m_buffer b) p data 0 left_in_buffer of
                  Inl f \<Rightarrow> Inl f
                | Inr buf1 \<Rightarrow>
                    (let b1 = b\<lparr>m_buffer := buf1,
                                 m_used_slots := m_used_slots b + left_in_buffer,
                                 m_buffer_head := 0\<rparr>;
                         unit_count' = unit_count - left_in_buffer;
                         p' = get_buffer_head b1
                     in
                       (case memcpy (m_buffer b1) p' data left_in_buffer unit_count' of
                          Inl f \<Rightarrow> Inl f
                        | Inr buf2 \<Rightarrow>
                            Inr (True, b1\<lparr>m_buffer := buf2,
                                           m_used_slots := m_used_slots b1 + unit_count',
                                           m_buffer_head := m_buffer_head b1 + unit_count'\<rparr>))))"

subsection \<open>extract\_units\<close>

text \<open>
  \<open>data\<close> is the caller's receiving array from the pointer passed on; the result is the
  Boolean returned, that array after the call, and the buffer after the call.
\<close>

definition extract_units ::
  "'u CircularBuffer \<Rightarrow> 'u list \<Rightarrow> int \<Rightarrow> fault + (bool \<times> 'u list \<times> 'u CircularBuffer)" where
  "extract_units b data unit_count =
     (if m_unit_count b = 0 then Inr (False, data, b)
      else if m_used_slots b < unit_count then Inr (False, data, b)
      else
        let p = get_buffer_tail b in
        if m_buffer_head b < m_buffer_tail b then
          let data_count = m_unit_count b - m_buffer_tail b in
          if data_count < unit_count then
            case memcpy data 0 (m_buffer b) p data_count of
              Inl f \<Rightarrow> Inl f
            | Inr data1 \<Rightarrow>
                (let unit_count' = unit_count - data_count;
                     b1 = b\<lparr>m_used_slots := m_used_slots b - data_count,
                             m_buffer_tail := 0\<rparr>;
                     p' = get_buffer_tail b1
                 in
                   (case memcpy data1 data_count (m_buffer b1) p' unit_count' of
                      Inl f \<Rightarrow> Inl f
                    | Inr data2 \<Rightarrow>
                        Inr (True, data2,
                             b1\<lparr>m_used_slots := m_used_slots b1 - unit_count',
                                m_buffer_tail := m_buffer_tail b1 + unit_count'\<rparr>)))
          else
            case memcpy data 0 (m_buffer b) p unit_count of
              Inl f \<Rightarrow> Inl f
            | Inr data1 \<Rightarrow>
                Inr (True, data1,
                     b\<lparr>m_used_slots := m_used_slots b - unit_count,
                       m_buffer_tail := m_buffer_tail b + unit_count\<rparr>)
        else
          let data_count = m_buffer_head b - m_buffer_tail b in
          if data_count < unit_count then Inr (False, data, b)
          else
            case memcpy data 0 (m_buffer b) p unit_count of
              Inl f \<Rightarrow> Inl f
            | Inr data1 \<Rightarrow>
                Inr (True, data1,
                     b\<lparr>m_used_slots := m_used_slots b - unit_count,
                       m_buffer_tail := m_buffer_tail b + unit_count\<rparr>))"

subsection \<open>Occupancy queries\<close>

definition used_space :: "'u CircularBuffer \<Rightarrow> int" where
  "used_space b = m_used_slots b"

definition free_space :: "'u CircularBuffer \<Rightarrow> int" where
  "free_space b = m_unit_count b - m_used_slots b"

subsection \<open>Copying\<close>

text \<open>
  \<open>transfer this source\<close> is \<open>this->transfer(source)\<close>, with \<open>assert\<close> compiled in.
  In the double copy \<open>p += unit_count\<close> moves a \<open>Unit*\<close>, that is to element
  \<open>unit_count\<close> of the destination.
\<close>

definition transfer :: "'u CircularBuffer \<Rightarrow> 'u CircularBuffer \<Rightarrow> fault + 'u CircularBuffer" where
  "transfer this source =
     (if m_buffer_head source \<noteq> m_buffer_tail source then
        if \<not> (m_unit_size source = m_unit_size this \<or> m_unit_count source \<le> m_unit_count this)
        then Inl AssertionFailed
        else
          if m_buffer_head source > m_buffer_tail source then
            let tail_offset = m_buffer_tail source * m_unit_size source in
            case memcpy (m_buffer this) 0 (m_buffer source) tail_offset (m_used_slots source) of
              Inl f \<Rightarrow> Inl f
            | Inr buf \<Rightarrow>
                Inr (this\<lparr>m_buffer := buf, m_buffer_tail := 0,
                          m_buffer_head := m_used_slots source,
                          m_used_slots := m_used_slots source\<rparr>)
          else
            let p = 0;
                tail_offset = m_buffer_tail source * m_unit_size source;
                unit_count = m_unit_count source - m_buffer_tail source
            in
              case memcpy (m_buffer this) p (m_buffer source) tail_offset unit_count of
                Inl f \<Rightarrow> Inl f
              | Inr buf1 \<Rightarrow>
                  (let p' = p + unit_count in
                     (case memcpy buf1 p' (m_buffer source) 0 (m_buffer_head source) of
                        Inl f \<Rightarrow> Inl f
                      | Inr buf2 \<Rightarrow>
                          Inr (this\<lparr>m_buffer := buf2, m_buffer_tail := 0,
                                    m_buffer_head := m_used_slots source,
                                    m_used_slots := m_used_slots source\<rparr>)))
      else Inr this)"

text \<open>
  The copy constructor has no member initialiser list: the members take their default
  initialisers, then \<open>transfer\<close> runs. Copy assignment is \<open>transfer\<close> on the existing
  object.
\<close>

definition copy_construct :: "'u CircularBuffer \<Rightarrow> fault + 'u CircularBuffer" where
  "copy_construct source = transfer default_members source"

definition copy_assign :: "'u CircularBuffer \<Rightarrow> 'u CircularBuffer \<Rightarrow> fault + 'u CircularBuffer" where
  "copy_assign this source = transfer this source"

subsection \<open>Sequences of calls\<close>

text \<open>
  A caller's sequence of \<open>insert_units\<close> and \<open>extract_units\<close> calls, each with its
  array and count. \<open>run\<close> makes the calls in order and gives the buffer after the last,
  whatever each call returned; a fault ends the run.
\<close>

datatype 'u call = Insert "'u list" int | Extract "'u list" int

fun call_buffer :: "'u CircularBuffer \<Rightarrow> 'u call \<Rightarrow> fault + 'u CircularBuffer" where
  "call_buffer b (Insert data n) =
     (case insert_units b data n of Inl f \<Rightarrow> Inl f | Inr (ok, b') \<Rightarrow> Inr b')"
| "call_buffer b (Extract data n) =
     (case extract_units b data n of Inl f \<Rightarrow> Inl f | Inr (ok, data', b') \<Rightarrow> Inr b')"

fun run :: "'u CircularBuffer \<Rightarrow> 'u call list \<Rightarrow> fault + 'u CircularBuffer" where
  "run b [] = Inr b"
| "run b (c # cs) = (case call_buffer b c of Inl f \<Rightarrow> Inl f | Inr b' \<Rightarrow> run b' cs)"

text \<open>
  A constructed buffer followed by a sequence of calls. \<open>zeroed\<close> is a fresh allocation
  that happens to hold zeros, for the concrete runs below.
\<close>

definition construct_then ::
  "int \<Rightarrow> (nat \<Rightarrow> 'u) \<Rightarrow> int \<Rightarrow> 'u call list \<Rightarrow> fault + 'u CircularBuffer" where
  "construct_then sizeof_Unit cells unit_count calls =
     (case CircularBuffer_ctor sizeof_Unit cells unit_count of
        Inl f \<Rightarrow> Inl f
      | Inr b \<Rightarrow> run b calls)"

definition zeroed :: "nat \<Rightarrow> nat" where
  "zeroed i = 0"

subsection \<open>The invariant of the cursors and the contents of a buffer\<close>

text \<open>
  What the constructor establishes and every call keeps: the storage has \<open>m_unit_count\<close>
  elements, both cursors lie between 0 and \<open>m_unit_count\<close> inclusive (a cursor that
  reaches the end stays there until the next call wraps it), and \<open>m_used_slots\<close> is the
  distance from tail to head, around the end when head is below tail; with head equal
  to tail the buffer is empty or full.
\<close>

definition buffer_inv :: "'u CircularBuffer \<Rightarrow> bool" where
  "buffer_inv b \<longleftrightarrow>
     0 \<le> m_unit_count b \<and> int (length (m_buffer b)) = m_unit_count b \<and>
     0 \<le> m_buffer_head b \<and> m_buffer_head b \<le> m_unit_count b \<and>
     0 \<le> m_buffer_tail b \<and> m_buffer_tail b \<le> m_unit_count b \<and>
     (if m_buffer_head b < m_buffer_tail b
      then m_used_slots b = m_unit_count b - m_buffer_tail b + m_buffer_head b
      else if m_buffer_tail b < m_buffer_head b
      then m_used_slots b = m_buffer_head b - m_buffer_tail b
      else m_used_slots b = 0 \<or> m_used_slots b = m_unit_count b)"

text \<open>
  The occupied units, oldest first: \<open>m_used_slots\<close> units from the tail on, continuing at
  element 0 after the last element.
\<close>

definition contents :: "'u CircularBuffer \<Rightarrow> 'u list" where
  "contents b =
     take (nat (m_used_slots b)) (drop (nat (m_buffer_tail b)) (m_buffer b) @ m_buffer b)"

text \<open>
  A run of \<open>extract_units\<close> calls that all return true, each with its receiving array
  and count: the units copied out, in order, and the buffer afterwards. \<open>None\<close> when
  a call returns false or faults.
\<close>

fun successful_extracts ::
  "'u CircularBuffer \<Rightarrow> ('u list \<times> int) list \<Rightarrow> ('u list \<times> 'u CircularBuffer) option" where
  "successful_extracts b [] = Some ([], b)"
| "successful_extracts b ((data, n) # rs) =
     (case extract_units b data n of
        Inr (True, data', b') \<Rightarrow>
          (case successful_extracts b' rs of
             Some (out, b'') \<Rightarrow> Some (take (nat n) data' @ out, b'')
           | None \<Rightarrow> None)
      | _ \<Rightarrow> None)"

section \<open>How the calls return\<close>

lemma memcpy_InrD:
  "memcpy dst d src s n = Inr r \<Longrightarrow>
     0 \<le> n \<and> 0 \<le> d \<and> d + n \<le> int (length dst) \<and> 0 \<le> s \<and> s + n \<le> int (length src) \<and>
     r = take (nat d) dst @ take (nat n) (drop (nat s) src) @ drop (nat (d + n)) dst"
  by (simp add: memcpy_def split: if_splits)

lemma memcpy_length: "memcpy dst d src s n = Inr r \<Longrightarrow> length r = length dst"
  by (auto simp: memcpy_def split: if_splits)

text \<open>The two ways \<open>insert_units\<close> returns true: one copy, or two around the end.\<close>

lemma insert_units_TrueD:
  assumes "insert_units b data n = Inr (True, b')"
  shows "m_unit_count b \<noteq> 0 \<and> n \<le> m_unit_count b - m_used_slots b \<and>
    ((\<exists>buf. (if m_buffer_head b < m_buffer_tail b then n \<le> m_buffer_tail b - m_buffer_head b
              else n \<le> m_unit_count b - m_buffer_head b) \<and>
        memcpy (m_buffer b) (get_buffer_head b) data 0 n = Inr buf \<and>
        b' = b\<lparr>m_buffer := buf, m_used_slots := m_used_slots b + n,
                m_buffer_head := m_buffer_head b + n\<rparr>) \<or>
     (\<exists>buf1 buf2. m_buffer_tail b \<le> m_buffer_head b \<and> m_unit_count b - m_buffer_head b < n \<and>
        n \<le> m_unit_count b - m_buffer_head b + (m_buffer_tail b - 1) \<and>
        memcpy (m_buffer b) (get_buffer_head b) data 0 (m_unit_count b - m_buffer_head b) = Inr buf1 \<and>
        memcpy buf1 0 data (m_unit_count b - m_buffer_head b)
               (n - (m_unit_count b - m_buffer_head b)) = Inr buf2 \<and>
        b' = b\<lparr>m_buffer := buf2, m_used_slots := m_used_slots b + n,
                m_buffer_head := n - (m_unit_count b - m_buffer_head b)\<rparr>))"
  using assms
  apply (simp add: insert_units_def Let_def get_buffer_head_def split: if_splits sum.splits)
  done


lemma memcpy_Inr_facts: "memcpy dst d src s n = Inr r \<Longrightarrow> 0 \<le> n \<and> length r = length dst"
  by (auto simp: memcpy_def split: if_splits)

lemma insert_units_FalseD: "insert_units b data n = Inr (False, b') \<Longrightarrow> b' = b"
  by (simp add: insert_units_def Let_def split: if_splits sum.splits)

lemma insert_units_inv:
  assumes inv: "buffer_inv b" and call: "insert_units b data n = Inr (ok, b')"
  shows "buffer_inv b' \<and> m_unit_size b' = m_unit_size b \<and> m_unit_count b' = m_unit_count b"
proof (cases ok)
  case False
  with call have "b' = b" by (simp add: insert_units_FalseD)
  with inv show ?thesis by simp
next
  case True
  with call have t: "insert_units b data n = Inr (True, b')" by simp
  from insert_units_TrueD[OF t] have fs: "n \<le> m_unit_count b - m_used_slots b" by simp
  from insert_units_TrueD[OF t] consider
    (one) buf where
      "if m_buffer_head b < m_buffer_tail b then n \<le> m_buffer_tail b - m_buffer_head b
       else n \<le> m_unit_count b - m_buffer_head b"
      "memcpy (m_buffer b) (get_buffer_head b) data 0 n = Inr buf"
      "b' = b\<lparr>m_buffer := buf, m_used_slots := m_used_slots b + n,
                m_buffer_head := m_buffer_head b + n\<rparr>"
  | (two) buf1 buf2 where
      "m_buffer_tail b \<le> m_buffer_head b" "m_unit_count b - m_buffer_head b < n"
      "n \<le> m_unit_count b - m_buffer_head b + (m_buffer_tail b - 1)"
      "memcpy (m_buffer b) (get_buffer_head b) data 0 (m_unit_count b - m_buffer_head b) = Inr buf1"
      "memcpy buf1 0 data (m_unit_count b - m_buffer_head b)
               (n - (m_unit_count b - m_buffer_head b)) = Inr buf2"
      "b' = b\<lparr>m_buffer := buf2, m_used_slots := m_used_slots b + n,
                m_buffer_head := n - (m_unit_count b - m_buffer_head b)\<rparr>"
    by blast
  then show ?thesis
  proof cases
    case one
    from memcpy_Inr_facts[OF one(2)] have n: "0 \<le> n" and len: "length buf = length (m_buffer b)"
      by simp_all
    show ?thesis
      using inv one(1) n len fs unfolding one(3) buffer_inv_def
      by (auto split: if_splits)
  next
    case two
    from memcpy_Inr_facts[OF two(4)] have len1: "length buf1 = length (m_buffer b)" by simp
    from memcpy_Inr_facts[OF two(5)] have len2: "length buf2 = length buf1" by simp
    show ?thesis
      using inv two(1,2,3) len1 len2 fs unfolding two(6) buffer_inv_def
      by (auto split: if_splits)
  qed
qed


lemma extract_units_FalseD: "extract_units b data n = Inr (False, data', b') \<Longrightarrow> data' = data \<and> b' = b"
  by (simp add: extract_units_def Let_def split: if_splits sum.splits)

lemma extract_units_TrueD:
  assumes "extract_units b data n = Inr (True, data', b')"
  shows "m_unit_count b \<noteq> 0 \<and> n \<le> m_used_slots b \<and>
    (((if m_buffer_head b < m_buffer_tail b then n \<le> m_unit_count b - m_buffer_tail b
              else n \<le> m_buffer_head b - m_buffer_tail b) \<and>
        memcpy data 0 (m_buffer b) (get_buffer_tail b) n = Inr data' \<and>
        b' = b\<lparr>m_used_slots := m_used_slots b - n,
                m_buffer_tail := m_buffer_tail b + n\<rparr>) \<or>
     (\<exists>data1. m_buffer_head b < m_buffer_tail b \<and> m_unit_count b - m_buffer_tail b < n \<and>
        memcpy data 0 (m_buffer b) (get_buffer_tail b) (m_unit_count b - m_buffer_tail b) = Inr data1 \<and>
        memcpy data1 (m_unit_count b - m_buffer_tail b) (m_buffer b) 0
               (n - (m_unit_count b - m_buffer_tail b)) = Inr data' \<and>
        b' = b\<lparr>m_used_slots := m_used_slots b - n,
                m_buffer_tail := n - (m_unit_count b - m_buffer_tail b)\<rparr>))"
  using assms
  apply (simp add: extract_units_def Let_def get_buffer_tail_def split: if_splits sum.splits)
  done

lemma extract_units_inv:
  assumes inv: "buffer_inv b" and call: "extract_units b data n = Inr (ok, data', b')"
  shows "buffer_inv b' \<and> m_unit_size b' = m_unit_size b \<and> m_unit_count b' = m_unit_count b"
proof (cases ok)
  case False
  with call have "b' = b" by (simp add: extract_units_FalseD)
  with inv show ?thesis by simp
next
  case True
  with call have t: "extract_units b data n = Inr (True, data', b')" by simp
  from extract_units_TrueD[OF t] have used: "n \<le> m_used_slots b" by simp
  from extract_units_TrueD[OF t] consider
    (one)
      "if m_buffer_head b < m_buffer_tail b then n \<le> m_unit_count b - m_buffer_tail b
       else n \<le> m_buffer_head b - m_buffer_tail b"
      "memcpy data 0 (m_buffer b) (get_buffer_tail b) n = Inr data'"
      "b' = b\<lparr>m_used_slots := m_used_slots b - n, m_buffer_tail := m_buffer_tail b + n\<rparr>"
  | (two) data1 where
      "m_buffer_head b < m_buffer_tail b" "m_unit_count b - m_buffer_tail b < n"
      "memcpy data 0 (m_buffer b) (get_buffer_tail b) (m_unit_count b - m_buffer_tail b) = Inr data1"
      "memcpy data1 (m_unit_count b - m_buffer_tail b) (m_buffer b) 0
               (n - (m_unit_count b - m_buffer_tail b)) = Inr data'"
      "b' = b\<lparr>m_used_slots := m_used_slots b - n,
                m_buffer_tail := n - (m_unit_count b - m_buffer_tail b)\<rparr>"
    by blast
  then show ?thesis
  proof cases
    case one
    from memcpy_Inr_facts[OF one(2)] have n: "0 \<le> n" by simp
    show ?thesis
      using inv one(1) n used unfolding one(3) buffer_inv_def
      by (auto split: if_splits)
  next
    case two
    show ?thesis
      using inv two(1,2) used unfolding two(5) buffer_inv_def
      by (auto split: if_splits)
  qed
qed

lemma ctor_inv:
  "CircularBuffer_ctor sz cells n = Inr b \<Longrightarrow>
     buffer_inv b \<and> m_unit_size b = sz \<and> m_unit_count b = n \<and> m_used_slots b = 0"
  by (auto simp: CircularBuffer_ctor_def default_members_def reset_def buffer_inv_def
           split: if_splits)

lemma call_buffer_inv:
  "buffer_inv b \<Longrightarrow> call_buffer b c = Inr b' \<Longrightarrow>
     buffer_inv b' \<and> m_unit_size b' = m_unit_size b \<and> m_unit_count b' = m_unit_count b"
  by (cases c) (auto split: sum.splits dest: insert_units_inv extract_units_inv)

lemma run_inv:
  "buffer_inv b \<Longrightarrow> run b cs = Inr b' \<Longrightarrow>
     buffer_inv b' \<and> m_unit_size b' = m_unit_size b \<and> m_unit_count b' = m_unit_count b"
proof (induction cs arbitrary: b)
  case Nil
  then show ?case by simp
next
  case (Cons c cs)
  then obtain b1 where 1: "call_buffer b c = Inr b1" and 2: "run b1 cs = Inr b'"
    by (auto split: sum.splits)
  from call_buffer_inv[OF Cons.prems(1) 1] Cons.IH[OF _ 2] show ?case by simp
qed

lemma reached_inv:
  assumes "CircularBuffer_ctor sz cells cap = Inr b0" and "run b0 calls = Inr b"
  shows "buffer_inv b \<and> m_unit_size b = sz \<and> m_unit_count b = cap"
proof -
  from ctor_inv[OF assms(1)] have "buffer_inv b0" "m_unit_size b0 = sz" "m_unit_count b0 = cap"
    by simp_all
  with run_inv[OF _ assms(2)] show ?thesis by simp
qed

lemma insert_units_rejects:
  "m_unit_count b = 0 \<or> m_unit_count b - m_used_slots b < n \<Longrightarrow>
     insert_units b data n = Inr (False, b)"
  by (auto simp: insert_units_def)

lemma extract_units_rejects:
  "m_unit_count b = 0 \<or> m_used_slots b < n \<Longrightarrow> extract_units b data n = Inr (False, data, b)"
  by (auto simp: extract_units_def)

lemma memcpy_in_bounds:
  assumes "0 \<le> n" "0 \<le> d" "d + n \<le> int (length dst)" "0 \<le> s" "s + n \<le> int (length src)"
  shows "\<exists>r. memcpy dst d src s n = Inr r \<and> length r = length dst"
  using assms by (simp add: memcpy_def)

lemma memcpy_nat_in_bounds:
  assumes "d + n \<le> length dst" "s + n \<le> length src"
  shows "memcpy dst (int d) src (int s) (int n)
           = Inr (take d dst @ take n (drop s src) @ drop (d + n) dst)"
  using assms by (simp add: memcpy_def nat_add_distrib)

lemma memcpy_nat:
  assumes "memcpy dst (int d) src (int s) (int n) = Inr r"
  shows "d + n \<le> length dst \<and> s + n \<le> length src \<and>
         r = take d dst @ take n (drop s src) @ drop (d + n) dst"
  using memcpy_InrD[OF assms] by (simp add: nat_add_distrib)

section \<open>One-byte units: what the calls do to the contents\<close>

text \<open>
  With \<open>m_unit_size = 1\<close> the cursor address is the cursor. The lemmas on lists say
  what one or two block copies do to the units read from the tail on.
\<close>

lemma ring_take_straight:
  fixes buf :: "'u list"
  assumes "t + k \<le> length buf" "k \<le> u"
  shows "take k (take u (drop t buf @ buf)) = take k (drop t buf)"
    and "drop k (take u (drop t buf @ buf)) = take (u - k) (drop (t + k) buf @ buf)"
  using assms by (auto simp: min_def drop_take add.commute)

lemma ring_take_wrapped:
  fixes buf :: "'u list"
  assumes "t \<le> length buf" "length buf - t < k" "k \<le> u" "u \<le> length buf"
  shows "take k (take u (drop t buf @ buf)) = drop t buf @ take (k - (length buf - t)) buf"
    and "drop k (take u (drop t buf @ buf)) =
           take (u - k) (drop (k - (length buf - t)) buf @ buf)"
  using assms by (auto simp: min_def drop_take)

lemma wrapped_copy:
  fixes front buf data :: "'u list"
  assumes "dc = length front" "dc < k" "k \<le> length data" "k - dc \<le> length buf"
  shows "take k (take dc (front @ drop dc data) @ take (k - dc) buf @ drop k (front @ drop dc data))
           = front @ take (k - dc) buf"
    and "drop k (take dc (front @ drop dc data) @ take (k - dc) buf @ drop k (front @ drop dc data))
           = drop k data"
  using assms by (simp_all add: min_def)

lemma take_two_segments:
  "length A = a \<Longrightarrow> length B = k \<Longrightarrow> take (a + k) ((A @ B @ C) @ D) = A @ B"
  by simp

lemma ring_put_above_tail:
  fixes buf data :: "'u list"
  assumes "t \<le> h" "u = h - t" "h + k \<le> length buf" "k \<le> length data"
  shows "take (u + k) (drop t (take h buf @ take k data @ drop (h + k) buf) @
                        (take h buf @ take k data @ drop (h + k) buf))
         = take u (drop t buf @ buf) @ take k data"
proof -
  let ?A = "drop t (take h buf)"
  have la: "length ?A = u" using assms by simp
  have lb: "length (take k data) = k" using assms by simp
  have d: "drop t (take h buf @ take k data @ drop (h + k) buf)
             = ?A @ take k data @ drop (h + k) buf"
    using assms by simp
  have old: "take u (drop t buf @ buf) = ?A"
    using assms by (simp add: drop_take)
  show ?thesis
    unfolding d old by (rule take_two_segments[OF la lb])
qed

lemma ring_put_below_tail:
  fixes buf data :: "'u list"
  assumes "h < t" "k \<le> t - h" "t \<le> length buf" "u = length buf - t + h" "k \<le> length data"
  shows "take (u + k) (drop t (take h buf @ take k data @ drop (h + k) buf) @
                        (take h buf @ take k data @ drop (h + k) buf))
         = take u (drop t buf @ buf) @ take k data"
proof -
  have d: "drop t (take h buf @ take k data @ drop (h + k) buf) = drop t buf"
    using assms by simp
  have old: "take u (drop t buf @ buf) = drop t buf @ take h buf"
    using assms by simp
  have "take (u + k) (drop t buf @ (take h buf @ take k data @ drop (h + k) buf))
          = drop t buf @ take h buf @ take k data"
    using assms by simp
  then show ?thesis unfolding d old by simp
qed

lemma ring_put_wrapped:
  fixes buf data :: "'u list"
  assumes "t \<le> h" "u = h - t" "h \<le> length buf" "left = length buf - h" "left < k"
    "k < left + t" "k \<le> length data"
  shows "take (u + k)
           (drop t (take (k - left) (drop left data) @
                    drop (k - left) (take h buf @ take left data)) @
            (take (k - left) (drop left data) @
                    drop (k - left) (take h buf @ take left data)))
         = take u (drop t buf @ buf) @ take k data"
proof -
  define r where "r = k - left"
  have k: "k = left + r" and rt: "r < t" and rh: "r \<le> h"
    using assms by (simp_all add: r_def)
  let ?A = "drop t (take h buf)"
  let ?N = "take r (drop left data)"
  have ln: "length ?N = r" using assms k by simp
  have la: "length ?A = u" using assms by simp
  have ll: "length (take left data) = left" using assms by simp
  have d: "drop t (?N @ drop r (take h buf @ take left data)) = ?A @ take left data"
    using rt rh ln assms(1,3) by (simp add: min_def)
  have front: "take r (?N @ drop r (take h buf @ take left data)) = ?N"
    using ln by simp
  have old: "take u (drop t buf @ buf) = ?A"
    using assms by (simp add: drop_take)
  have "take (u + k) ((?A @ take left data) @ (?N @ drop r (take h buf @ take left data)))
          = ?A @ take left data @ ?N"
    using la ll ln k by simp
  also have "take left data @ ?N = take k data"
    unfolding k by (simp add: take_add)
  finally show ?thesis unfolding d old r_def [symmetric] by simp
qed

lemma ctor_contents: "CircularBuffer_ctor sz cells n = Inr b \<Longrightarrow> contents b = []"
  using ctor_inv[of sz cells n b] by (simp add: contents_def)

lemma extract_units_contents:
  assumes inv: "buffer_inv b" and us: "m_unit_size b = 1"
    and call: "extract_units b data n = Inr (True, data', b')"
  shows "0 \<le> n \<and> n \<le> m_used_slots b \<and>
         take (nat n) data' = take (nat n) (contents b) \<and>
         drop (nat n) data' = drop (nat n) data \<and>
         contents b' = drop (nat n) (contents b) \<and>
         m_used_slots b' = m_used_slots b - n"
proof -
  define buf where "buf = m_buffer b"
  define t where "t = nat (m_buffer_tail b)"
  define u where "u = nat (m_used_slots b)"
  define k where "k = nat n"
  from inv have tail: "m_buffer_tail b = int t" and tc: "t \<le> length buf"
    and used: "m_used_slots b = int u" and uc: "u \<le> length buf"
    and cap: "m_unit_count b = int (length buf)"
    by (auto simp: buffer_inv_def buf_def t_def u_def split: if_splits)
  have c: "contents b = take u (drop t buf @ buf)"
    by (simp add: contents_def t_def u_def buf_def)
  from extract_units_TrueD[OF call] have nu: "n \<le> m_used_slots b" by simp
  from extract_units_TrueD[OF call] consider
    (one)
      "memcpy data 0 buf (m_buffer_tail b) n = Inr data'"
      "b' = b\<lparr>m_used_slots := m_used_slots b - n, m_buffer_tail := m_buffer_tail b + n\<rparr>"
  | (two) data1 where
      "m_unit_count b - m_buffer_tail b < n"
      "memcpy data 0 buf (m_buffer_tail b) (m_unit_count b - m_buffer_tail b) = Inr data1"
      "memcpy data1 (m_unit_count b - m_buffer_tail b) buf 0
               (n - (m_unit_count b - m_buffer_tail b)) = Inr data'"
      "b' = b\<lparr>m_used_slots := m_used_slots b - n,
                m_buffer_tail := n - (m_unit_count b - m_buffer_tail b)\<rparr>"
    unfolding get_buffer_tail_def buf_def using us by (auto simp: Let_def)
  then show ?thesis
  proof cases
    case one
    from memcpy_InrD[OF one(1)] have n0: "0 \<le> n" by simp
    then have n: "n = int k" by (simp add: k_def)
    from one(1) have "memcpy data (int 0) buf (int t) (int k) = Inr data'"
      by (simp add: tail n)
    from memcpy_nat[OF this] have kd: "k \<le> length data" and tk: "t + k \<le> length buf"
      and d': "data' = take k (drop t buf) @ drop k data"
      by simp_all
    from nu have ku: "k \<le> u" by (simp add: n used)
    have c': "contents b' = take (u - k) (drop (t + k) buf @ buf)"
      using ku by (simp add: contents_def one(2) tail used n buf_def [symmetric] nat_diff_distrib nat_add_distrib)
    have "take k data' = take k (drop t buf)" and "drop k data' = drop k data"
      using tk kd by (simp_all add: d')
    moreover have sel: "m_used_slots b' = m_used_slots b - n" by (simp add: one(2))
    moreover from ring_take_straight[OF tk ku] have
      "take k (contents b) = take k (drop t buf)"
      "drop k (contents b) = contents b'"
      by (simp_all add: c c')
    ultimately show ?thesis using n0 nu
      by (simp add: k_def)
  next
    case two
    define dc where "dc = length buf - t"
    have dci: "int (length buf) - int t = int dc"
      using tc by (simp add: dc_def of_nat_diff)
    from two(1) have n0: "0 \<le> n" by (simp add: cap tail dci)
    then have n: "n = int k" by (simp add: k_def)
    from two(1) have dck: "dc < k" by (simp add: cap tail dci n)
    then have rest: "int k - int dc = int (k - dc)"
      by (simp add: of_nat_diff)
    from nu have ku: "k \<le> u" by (simp add: n used)
    from two(2) have "memcpy data (int 0) buf (int t) (int dc) = Inr data1"
      by (simp add: cap tail dci)
    from memcpy_nat[OF this] have d1: "data1 = drop t buf @ drop dc data"
      and dcd: "dc \<le> length data"
      by (simp_all add: dc_def)
    from two(3) have "memcpy data1 (int dc) buf (int 0) (int (k - dc)) = Inr data'"
      by (simp add: cap tail dci n rest)
    from memcpy_nat[OF this] have d': "data' = take dc data1 @ take (k - dc) buf @ drop k data1"
      and kd1: "k \<le> length data1" and kb: "k - dc \<le> length buf"
      using dck by simp_all
    have l1: "length data1 = length data"
      using dcd tc by (simp add: d1 dc_def)
    have ldrop: "dc = length (drop t buf)" by (simp add: dc_def)
    from kd1 l1 have kd: "k \<le> length data" by simp
    have tk: "take k data' = drop t buf @ take (k - dc) buf"
      unfolding d' d1 by (rule wrapped_copy(1)[OF ldrop dck kd kb])
    have dk: "drop k data' = drop k data"
      unfolding d' d1 by (rule wrapped_copy(2)[OF ldrop dck kd kb])
    have c': "contents b' = take (u - k) (drop (k - dc) buf @ buf)"
      using ku by (simp add: contents_def two(4) cap tail dci rest used n buf_def [symmetric] nat_diff_distrib)
    have w: "length buf - t < k" using dck by (simp add: dc_def)
    have sel: "m_used_slots b' = m_used_slots b - n" by (simp add: two(4))
    from ring_take_wrapped[OF tc w ku uc] have
      "take k (contents b) = drop t buf @ take (k - dc) buf"
      "drop k (contents b) = contents b'"
      by (simp_all add: c c' dc_def)
    with tk dk sel n0 nu show ?thesis
      by (simp add: k_def)
  qed
qed

lemma insert_units_contents:
  assumes inv: "buffer_inv b" and us: "m_unit_size b = 1"
    and call: "insert_units b data n = Inr (True, b')"
  shows "0 \<le> n \<and> n \<le> int (length data) \<and>
         contents b' = contents b @ take (nat n) data \<and>
         m_used_slots b' = m_used_slots b + n"
proof -
  define buf where "buf = m_buffer b"
  define h where "h = nat (m_buffer_head b)"
  define t where "t = nat (m_buffer_tail b)"
  define u where "u = nat (m_used_slots b)"
  define k where "k = nat n"
  from inv have head: "m_buffer_head b = int h" and hc: "h \<le> length buf"
    and tail: "m_buffer_tail b = int t" and tc: "t \<le> length buf"
    and used: "m_used_slots b = int u" and uc: "u \<le> length buf"
    and cap: "m_unit_count b = int (length buf)"
    by (auto simp: buffer_inv_def buf_def h_def t_def u_def split: if_splits)
  from inv have shape: "if h < t then u = length buf - t + h
                        else if t < h then u = h - t else u = 0 \<or> u = length buf"
    unfolding buffer_inv_def head tail used cap buf_def [symmetric]
    by (auto split: if_splits)
  have c: "contents b = take u (drop t buf @ buf)"
    by (simp add: contents_def t_def u_def buf_def)
  from insert_units_TrueD[OF call] have fs: "n \<le> m_unit_count b - m_used_slots b" by simp
  from insert_units_TrueD[OF call] consider
    (one) buf' where
      "if m_buffer_head b < m_buffer_tail b then n \<le> m_buffer_tail b - m_buffer_head b
       else n \<le> m_unit_count b - m_buffer_head b"
      "memcpy buf (m_buffer_head b) data 0 n = Inr buf'"
      "b' = b\<lparr>m_buffer := buf', m_used_slots := m_used_slots b + n,
                m_buffer_head := m_buffer_head b + n\<rparr>"
  | (two) buf1 buf2 where
      "m_buffer_tail b \<le> m_buffer_head b" "m_unit_count b - m_buffer_head b < n"
      "n \<le> m_unit_count b - m_buffer_head b + (m_buffer_tail b - 1)"
      "memcpy buf (m_buffer_head b) data 0 (m_unit_count b - m_buffer_head b) = Inr buf1"
      "memcpy buf1 0 data (m_unit_count b - m_buffer_head b)
               (n - (m_unit_count b - m_buffer_head b)) = Inr buf2"
      "b' = b\<lparr>m_buffer := buf2, m_used_slots := m_used_slots b + n,
                m_buffer_head := n - (m_unit_count b - m_buffer_head b)\<rparr>"
    unfolding get_buffer_head_def buf_def using us by (auto simp: Let_def)
  then show ?thesis
  proof cases
    case one
    from memcpy_InrD[OF one(2)] have n0: "0 \<le> n" by simp
    then have n: "n = int k" by (simp add: k_def)
    from one(2) have "memcpy buf (int h) data (int 0) (int k) = Inr buf'"
      by (simp add: head n)
    from memcpy_nat[OF this] have kd: "k \<le> length data" and hk: "h + k \<le> length buf"
      and b': "buf' = take h buf @ take k data @ drop (h + k) buf"
      by simp_all
    from fs have ku: "u + k \<le> length buf" by (simp add: cap used n)
    have c': "contents b' = take (u + k) (drop t buf' @ buf')"
      by (simp add: contents_def one(3) tail used n nat_add_distrib)
    have "take (u + k) (drop t buf' @ buf') = take u (drop t buf @ buf) @ take k data"
    proof (cases "h < t")
      case True
      with one(1) have "k \<le> t - h" by (simp add: head tail n)
      moreover from True shape have "u = length buf - t + h" by simp
      ultimately show ?thesis
        unfolding b' using True tc kd by (intro ring_put_below_tail)
    next
      case False
      show ?thesis
      proof (cases "u = h - t")
        case True
        with False show ?thesis
          unfolding b' using hk kd by (intro ring_put_above_tail) simp_all
      next
        case full: False
        with False shape have "h = t" and "u = length buf" by (auto split: if_splits)
        with ku have "k = 0" by simp
        then show ?thesis by (simp add: b')
      qed
    qed
    with c c' n0 kd show ?thesis
      by (simp add: n one(3))
  next
    case two
    define left where "left = length buf - h"
    have lefti: "int (length buf) - int h = int left"
      using hc by (simp add: left_def of_nat_diff)
    from two(2) have n0: "0 \<le> n" by (simp add: cap head lefti)
    then have n: "n = int k" by (simp add: k_def)
    from two(2) have lk: "left < k" by (simp add: cap head lefti n)
    then have rest: "int k - int left = int (k - left)" by (simp add: of_nat_diff)
    from two(3) have kt: "k < left + t" by (simp add: cap head tail lefti n)
    from two(1) have th: "t \<le> h" by (simp add: head tail)
    from fs have ku: "u + k \<le> length buf" by (simp add: cap used n)
    from two(4) have "memcpy buf (int h) data (int 0) (int left) = Inr buf1"
      by (simp add: cap head lefti)
    from memcpy_nat[OF this] have b1: "buf1 = take h buf @ take left data"
      and ld: "left \<le> length data"
      using hc by (simp_all add: left_def)
    from two(5) have "memcpy buf1 (int 0) data (int left) (int (k - left)) = Inr buf2"
      by (simp add: cap head lefti n rest)
    from memcpy_nat[OF this] have
      b2: "buf2 = take (k - left) (drop left data) @ drop (k - left) buf1"
      and kd: "k \<le> length data"
      using lk by simp_all
    have uh: "u = h - t"
      using shape th ku lk hc by (auto simp: left_def split: if_splits)
    have c': "contents b' = take (u + k) (drop t buf2 @ buf2)"
      by (simp add: contents_def two(6) tail used n nat_add_distrib)
    have "take (u + k) (drop t buf2 @ buf2) = take u (drop t buf @ buf) @ take k data"
      unfolding b2 b1 by (rule ring_put_wrapped[OF th uh hc left_def lk kt kd])
    with c c' n0 kd show ?thesis
      by (simp add: n two(6))
  qed
qed

text \<open>When the calls return true.\<close>

lemma extract_units_succeeds:
  assumes inv: "buffer_inv b" and us: "m_unit_size b = 1" and cap: "m_unit_count b \<noteq> 0"
    and n0: "0 \<le> n" and nu: "n \<le> m_used_slots b" and nd: "n \<le> int (length data)"
    and live: "\<not> (m_buffer_head b = m_buffer_tail b \<and> 0 < n)"
  shows "\<exists>data' b'. extract_units b data n = Inr (True, data', b')"
proof -
  from inv have len: "int (length (m_buffer b)) = m_unit_count b"
    and t0: "0 \<le> m_buffer_tail b" and tc: "m_buffer_tail b \<le> m_unit_count b"
    and hc: "m_buffer_head b \<le> m_unit_count b"
    and uc: "m_used_slots b \<le> m_unit_count b"
    by (auto simp: buffer_inv_def split: if_splits)
  have p: "get_buffer_tail b = m_buffer_tail b" by (simp add: get_buffer_tail_def us)
  consider (wrap) "m_buffer_head b < m_buffer_tail b" "m_unit_count b - m_buffer_tail b < n"
    | (upper) "m_buffer_head b < m_buffer_tail b" "n \<le> m_unit_count b - m_buffer_tail b"
    | (straight) "m_buffer_tail b \<le> m_buffer_head b"
    by linarith
  then show ?thesis
  proof cases
    case wrap
    let ?dc = "m_unit_count b - m_buffer_tail b"
    from memcpy_in_bounds[of ?dc 0 data "m_buffer_tail b" "m_buffer b"]
    obtain data1 where 1: "memcpy data 0 (m_buffer b) (m_buffer_tail b) ?dc = Inr data1"
      and l1: "length data1 = length data"
      using tc t0 wrap(2) nd len by auto
    from memcpy_in_bounds[of "n - ?dc" ?dc data1 0 "m_buffer b"]
    obtain data2 where 2: "memcpy data1 ?dc (m_buffer b) 0 (n - ?dc) = Inr data2"
      using tc t0 wrap(2) nd len l1 nu uc by auto
    show ?thesis
      using cap nu wrap 1 2
      by (simp add: extract_units_def get_buffer_tail_def us Let_def)
  next
    case upper
    from memcpy_in_bounds[of n 0 data "m_buffer_tail b" "m_buffer b"]
    obtain data1 where 1: "memcpy data 0 (m_buffer b) (m_buffer_tail b) n = Inr data1"
      using n0 t0 upper(2) nd len by auto
    show ?thesis
      using cap nu upper 1
      by (simp add: extract_units_def get_buffer_tail_def us Let_def)
  next
    case straight
    have fit: "n \<le> m_buffer_head b - m_buffer_tail b"
      using inv straight live nu n0 by (auto simp: buffer_inv_def split: if_splits)
    from memcpy_in_bounds[of n 0 data "m_buffer_tail b" "m_buffer b"]
    obtain data1 where 1: "memcpy data 0 (m_buffer b) (m_buffer_tail b) n = Inr data1"
      using n0 t0 fit hc nd len by auto
    show ?thesis
      using cap nu straight fit 1
      by (simp add: extract_units_def get_buffer_tail_def us Let_def)
  qed
qed

lemma insert_units_succeeds:
  assumes inv: "buffer_inv b" and us: "m_unit_size b = 1" and cap: "m_unit_count b \<noteq> 0"
    and n0: "0 \<le> n" and fs: "n \<le> m_unit_count b - m_used_slots b"
    and nd: "n \<le> int (length data)"
    and slack: "\<not> (m_buffer_tail b \<le> m_buffer_head b \<and> m_unit_count b - m_buffer_head b < n \<and>
                   n = m_unit_count b - m_buffer_head b + m_buffer_tail b)"
  shows "\<exists>b'. insert_units b data n = Inr (True, b')"
proof -
  from inv have len: "int (length (m_buffer b)) = m_unit_count b"
    and h0: "0 \<le> m_buffer_head b" and hc: "m_buffer_head b \<le> m_unit_count b"
    and t0: "0 \<le> m_buffer_tail b" and tc: "m_buffer_tail b \<le> m_unit_count b"
    by (auto simp: buffer_inv_def split: if_splits)
  consider (below) "m_buffer_head b < m_buffer_tail b"
    | (straight) "m_buffer_tail b \<le> m_buffer_head b" "n \<le> m_unit_count b - m_buffer_head b"
    | (wrap) "m_buffer_tail b \<le> m_buffer_head b" "m_unit_count b - m_buffer_head b < n"
    by linarith
  then show ?thesis
  proof cases
    case below
    with inv fs have fit: "n \<le> m_buffer_tail b - m_buffer_head b"
      by (auto simp: buffer_inv_def split: if_splits)
    from memcpy_in_bounds[of n "m_buffer_head b" "m_buffer b" 0 data]
    obtain buf where "memcpy (m_buffer b) (m_buffer_head b) data 0 n = Inr buf"
      using n0 h0 fit tc nd len by auto
    then show ?thesis
      using cap fs below fit
      by (simp add: insert_units_def get_buffer_head_def us Let_def)
  next
    case straight
    from memcpy_in_bounds[of n "m_buffer_head b" "m_buffer b" 0 data]
    obtain buf where "memcpy (m_buffer b) (m_buffer_head b) data 0 n = Inr buf"
      using n0 h0 straight(2) nd len by auto
    then show ?thesis
      using cap fs straight
      by (simp add: insert_units_def get_buffer_head_def us Let_def)
  next
    case wrap
    let ?left = "m_unit_count b - m_buffer_head b"
    from inv wrap fs have free: "n \<le> ?left + m_buffer_tail b"
      by (auto simp: buffer_inv_def split: if_splits)
    with slack wrap have fit: "\<not> ?left + (m_buffer_tail b - 1) < n" by simp
    from memcpy_in_bounds[of ?left "m_buffer_head b" "m_buffer b" 0 data]
    obtain buf1 where 1: "memcpy (m_buffer b) (m_buffer_head b) data 0 ?left = Inr buf1"
      and l1: "length buf1 = length (m_buffer b)"
      using hc h0 wrap(2) nd len by auto
    from memcpy_in_bounds[of "n - ?left" 0 buf1 ?left data]
    obtain buf2 where 2: "memcpy buf1 0 data ?left (n - ?left) = Inr buf2"
      using hc wrap(2) nd len l1 free tc by auto
    show ?thesis
      using cap fs wrap fit 1 2
      by (simp add: insert_units_def get_buffer_head_def us Let_def)
  qed
qed

text \<open>
  First in, first out: after a successful insert of \<open>s\<close>, extracts that all return true
  copy out a prefix of the units held before, followed by \<open>s\<close>.
\<close>

lemma successful_extracts_prefix:
  assumes "buffer_inv b" and "m_unit_size b = 1"
    and "successful_extracts b rs = Some (out, b')"
  shows "contents b = out @ contents b'"
  using assms
proof (induction rs arbitrary: b out)
  case Nil
  then show ?case by simp
next
  case (Cons r rs)
  obtain data n where r: "r = (data, n)" by (cases r)
  from Cons.prems(3) obtain data' b1 out' where
    e: "extract_units b data n = Inr (True, data', b1)"
    and rest: "successful_extracts b1 rs = Some (out', b')"
    and out: "out = take (nat n) data' @ out'"
    by (auto simp: r split: sum.splits bool.splits option.splits)
  from extract_units_inv[OF Cons.prems(1) e] Cons.prems(2)
  have inv1: "buffer_inv b1" and us1: "m_unit_size b1 = 1" by simp_all
  from extract_units_contents[OF Cons.prems(1,2) e]
  have hd: "take (nat n) data' = take (nat n) (contents b)"
    and tl: "contents b1 = drop (nat n) (contents b)" by simp_all
  from Cons.IH[OF inv1 us1 rest] have "contents b1 = out' @ contents b'" .
  with tl have "drop (nat n) (contents b) = out' @ contents b'" by simp
  then have "take (nat n) (contents b) @ drop (nat n) (contents b)
               = take (nat n) (contents b) @ out' @ contents b'" by simp
  then show ?case by (simp add: out hd)
qed

lemma fifo_one_byte_units:
  assumes "CircularBuffer_ctor 1 cells cap = Inr b0" and "run b0 calls = Inr b"
    and "insert_units b s (int (length s)) = Inr (True, b1)"
    and "successful_extracts b1 rs = Some (out, b2)"
  shows "contents b @ s = out @ contents b2"
proof -
  from reached_inv[OF assms(1,2)] have inv: "buffer_inv b" and us: "m_unit_size b = 1"
    by simp_all
  from insert_units_inv[OF inv assms(3)] us
  have inv1: "buffer_inv b1" and us1: "m_unit_size b1 = 1" by simp_all
  from insert_units_contents[OF inv us assms(3)] have "contents b1 = contents b @ s" by simp
  with successful_extracts_prefix[OF inv1 us1 assms(4)] show ?thesis by simp
qed

text \<open>
  Copying from a source whose cursors differ gives the destination the source's units,
  from element 0 on.
\<close>

lemma transfer_copies_contents:
  assumes inv: "buffer_inv source" and us: "m_unit_size source = 1"
    and this_us: "m_unit_size this = 1"
    and ne: "m_buffer_head source \<noteq> m_buffer_tail source"
    and room: "m_used_slots source \<le> int (length (m_buffer this))"
  shows "\<exists>d. transfer this source = Inr d \<and> m_buffer_tail d = 0 \<and>
           m_buffer_head d = m_used_slots source \<and> m_used_slots d = m_used_slots source \<and>
           contents d = contents source"
proof -
  define buf where "buf = m_buffer source"
  define dst where "dst = m_buffer this"
  define h where "h = nat (m_buffer_head source)"
  define t where "t = nat (m_buffer_tail source)"
  define u where "u = nat (m_used_slots source)"
  from inv have head: "m_buffer_head source = int h" and hc: "h \<le> length buf"
    and tail: "m_buffer_tail source = int t" and tc: "t \<le> length buf"
    and used: "m_used_slots source = int u"
    and cap: "m_unit_count source = int (length buf)"
    by (auto simp: buffer_inv_def buf_def h_def t_def u_def split: if_splits)
  from inv have shape: "if h < t then u = length buf - t + h
                        else if t < h then u = h - t else u = 0 \<or> u = length buf"
    unfolding buffer_inv_def head tail used cap buf_def [symmetric]
    by (auto split: if_splits)
  from room have ud: "u \<le> length dst" by (simp add: used dst_def)
  from ne have ht: "h \<noteq> t" by (simp add: head tail)
  have c: "contents source = take u (drop t buf @ buf)"
    by (simp add: contents_def t_def u_def buf_def)
  show ?thesis
  proof (cases "t < h")
    case True
    with shape have uh: "u = h - t" by simp
    have "t + u \<le> length buf" using True uh hc by simp
    from memcpy_nat_in_bounds[of 0 u dst t buf] ud this
    have m: "memcpy dst 0 buf (int t) (int u) = Inr (take u (drop t buf) @ drop u dst)"
      by simp
    have "contents source = take u (drop t buf)"
      using True uh hc by (simp add: c)
    moreover have "length (take u (drop t buf)) = u"
      using True uh hc by simp
    ultimately show ?thesis
      using True m ud
      by (simp add: transfer_def us this_us head tail used
            buf_def [symmetric] dst_def [symmetric] contents_def)
  next
    case False
    with ht have lt: "h < t" by simp
    with shape have uh: "u = length buf - t + h" by simp
    define uc where "uc = length buf - t"
    have uci: "int (length buf) - int t = int uc"
      using tc by (simp add: uc_def of_nat_diff)
    have ucu: "uc \<le> length dst" using ud uh by (simp add: uc_def)
    have "t + uc \<le> length buf" using tc by (simp add: uc_def)
    from memcpy_nat_in_bounds[of 0 uc dst t buf] ucu this
    have m1: "memcpy dst 0 buf (int t) (int uc) = Inr (drop t buf @ drop uc dst)"
      by (simp add: uc_def)
    let ?buf1 = "drop t buf @ drop uc dst"
    have l1: "length ?buf1 = length dst" using tc ucu by (simp add: uc_def)
    have "uc + h \<le> length ?buf1" using ud uh l1 by (simp add: uc_def)
    from memcpy_nat_in_bounds[of uc h ?buf1 0 buf] this hc
    have m2: "memcpy ?buf1 (int uc) buf 0 (int h)
                = Inr (drop t buf @ take h buf @ drop (uc + h) ?buf1)"
      using tc by (simp add: uc_def)
    have "contents source = drop t buf @ take h buf"
      using lt uh tc by (simp add: c)
    moreover have "length (drop t buf @ take h buf) = u"
      using lt uh tc hc by simp
    ultimately show ?thesis
      using lt m1 m2
      by (simp add: transfer_def us this_us head tail used cap uci
            buf_def [symmetric] dst_def [symmetric] contents_def)
  qed
qed

text \<open>
  A full buffer whose cursors coincide (capacity 4: insert 3, extract 2, then three
  inserts of 1) accepts no insert and no extract of a positive count: the extract stops
  at the re-check of \<open>m_buffer_head - m_buffer_tail\<close>.
\<close>

lemma full_buffer_with_coinciding_cursors_is_stuck:
  "(let S = \<lparr>m_unit_size = 1, m_unit_count = 4, m_buffer_head = 2, m_buffer_tail = 2,
             m_buffer = [5, 6, 3, 4], m_used_slots = 4\<rparr>
    in construct_then 1 zeroed 4
         [Insert [1, 2, 3] 3, Extract [0, 0] 2, Insert [4] 1, Insert [5] 1, Insert [6] 1] = Inr S \<and>
       extract_units S [0] 1 = Inr (False, [0], S) \<and>
       extract_units S [0, 0, 0, 0] 4 = Inr (False, [0, 0, 0, 0], S) \<and>
       insert_units S [7] 1 = Inr (False, S))"
  by code_simp

section \<open>The claims\<close>

text \<open>
  C1: the spec's own scenario: capacity 10, insert 3 units, insert 5, extract 5, then
  insert 7 units with 7 slots free. The claim has the call succeed and wrap; the code
  returns false and changes nothing, because the wrapping branch compares the count
  with \<open>left_in_buffer + (m_buffer_tail - 1)\<close>, one less than the free space.
\<close>

theorem insert_exact_fit_wrap_rejected:
  "(let B = \<lparr>m_unit_size = 1, m_unit_count = 10, m_buffer_head = 8, m_buffer_tail = 5,
             m_buffer = [1, 2, 3, 4, 5, 6, 7, 8, 0, 0], m_used_slots = 3\<rparr>
    in construct_then 1 zeroed 10
         [Insert [1, 2, 3] 3, Insert [4, 5, 6, 7, 8] 5, Extract [0, 0, 0, 0, 0] 5] = Inr B \<and>
       free_space B = 7 \<and>
       insert_units B [9, 10, 11, 12, 13, 14, 15] 7 = Inr (False, B))"
  by code_simp

text \<open>
  C2: the claim has \<open>extract_units\<close> fail exactly when fewer than \<open>count\<close> units are
  stored. A buffer of capacity 0 rejects every call, also the extraction of 0 units,
  which its 0 stored units would cover.
\<close>

theorem extract_nothing_from_disabled_buffer_fails:
  "(let Z = \<lparr>m_unit_size = 1, m_unit_count = 0, m_buffer_head = 0, m_buffer_tail = 0,
             m_buffer = [], m_used_slots = 0\<rparr>
    in CircularBuffer_ctor 1 zeroed 0 = Inr Z \<and>
       \<not> used_space Z < 0 \<and>
       extract_units Z [] 0 = Inr (False, [], Z))"
  by code_simp

text \<open>
  C2, as amended: for a buffer of one-byte units reached from the constructor by calls of
  \<open>insert_units\<close> and \<open>extract_units\<close>, and a count between 0 and the size of the
  receiving array: the call returns false, changing nothing, when the capacity is 0 or
  fewer than \<open>count\<close> units are stored; when the capacity is not 0, at least \<open>count\<close>
  units are stored and it is not the case that head equals tail with a positive count,
  the call returns true, the first \<open>count\<close> elements of the receiving array are the
  \<open>count\<close> oldest units, the rest of the array is untouched, and those units are gone
  from the buffer. (What the call does on a full buffer whose head equals its tail is
  left out.)
\<close>

theorem extract_units_contract:
  assumes "CircularBuffer_ctor 1 cells cap = Inr b0" and "run b0 calls = Inr b"
    and "0 \<le> n" and "n \<le> int (length data)"
  shows "(m_unit_count b = 0 \<or> m_used_slots b < n \<longrightarrow>
            extract_units b data n = Inr (False, data, b)) \<and>
         (m_unit_count b \<noteq> 0 \<and> n \<le> m_used_slots b \<and>
          \<not> (m_buffer_head b = m_buffer_tail b \<and> 0 < n) \<longrightarrow>
            (\<exists>data' b'. extract_units b data n = Inr (True, data', b') \<and>
               take (nat n) data' = take (nat n) (contents b) \<and>
               drop (nat n) data' = drop (nat n) data \<and>
               contents b' = drop (nat n) (contents b) \<and>
               used_space b' = used_space b - n))"
proof (intro conjI impI)
  assume "m_unit_count b = 0 \<or> m_used_slots b < n"
  then show "extract_units b data n = Inr (False, data, b)"
    by (rule extract_units_rejects)
next
  assume a: "m_unit_count b \<noteq> 0 \<and> n \<le> m_used_slots b \<and>
          \<not> (m_buffer_head b = m_buffer_tail b \<and> 0 < n)"
  from reached_inv[OF assms(1,2)] have inv: "buffer_inv b" and us: "m_unit_size b = 1"
    by simp_all
  from a extract_units_succeeds[OF inv us _ assms(3) _ assms(4)]
  obtain data' b' where e: "extract_units b data n = Inr (True, data', b')" by blast
  from extract_units_contents[OF inv us e] e
  show "\<exists>data' b'. extract_units b data n = Inr (True, data', b') \<and>
               take (nat n) data' = take (nat n) (contents b) \<and>
               drop (nat n) data' = drop (nat n) data \<and>
               contents b' = drop (nat n) (contents b) \<and>
               used_space b' = used_space b - n"
    by (simp add: used_space_def)
qed

theorem extract_units_contract_witness:
  "(let S = \<lparr>m_unit_size = 1, m_unit_count = 10, m_buffer_head = 0, m_buffer_tail = 0,
             m_buffer = [0, 0, 0, 0, 0, 0, 0, 0, 0, 0], m_used_slots = 0\<rparr>;
        B = \<lparr>m_unit_size = 1, m_unit_count = 10, m_buffer_head = 4, m_buffer_tail = 5,
             m_buffer = [11, 12, 13, 14, 5, 6, 7, 8, 9, 10], m_used_slots = 9\<rparr>
    in CircularBuffer_ctor 1 zeroed 10 = Inr S \<and>
       run S [Insert [1, 2, 3] 3, Insert [4, 5, 6, 7, 8] 5, Extract [0, 0, 0, 0, 0] 5,
              Insert [9, 10, 11, 12, 13, 14] 6] = Inr B \<and>
       extract_units B [0, 0, 0, 0, 0, 0, 0, 0, 0, 0] 10 =
         Inr (False, [0, 0, 0, 0, 0, 0, 0, 0, 0, 0], B) \<and>
       extract_units B [0, 0, 0, 0, 0, 0, 0, 0, 0] 9 =
         Inr (True, [6, 7, 8, 9, 10, 11, 12, 13, 14],
              B\<lparr>m_used_slots := 0, m_buffer_tail := 4\<rparr>) \<and>
       contents B = [6, 7, 8, 9, 10, 11, 12, 13, 14] \<and>
       contents (B\<lparr>m_used_slots := 0, m_buffer_tail := 4\<rparr>) = [])"
proof -
  let ?S = "\<lparr>m_unit_size = 1, m_unit_count = 10, m_buffer_head = 0, m_buffer_tail = 0,
             m_buffer = [0, 0, 0, 0, 0, 0, 0, 0, 0, 0::nat], m_used_slots = 0\<rparr>"
  let ?T = "\<lparr>m_unit_size = 1, m_unit_count = 10, m_buffer_head = 4, m_buffer_tail = 5,
             m_buffer = [11, 12, 13, 14, 5, 6, 7, 8, 9, 10::nat], m_used_slots = 9\<rparr>"
  let ?ten = "[0, 0, 0, 0, 0, 0, 0, 0, 0, 0::nat]"
  let ?nine = "[0, 0, 0, 0, 0, 0, 0, 0, 0::nat]"
  have c: "CircularBuffer_ctor 1 zeroed 10 = Inr ?S" by code_simp
  have r: "run ?S [Insert [1, 2, 3] 3, Insert [4, 5, 6, 7, 8] 5, Extract [0, 0, 0, 0, 0] 5,
              Insert [9, 10, 11, 12, 13, 14] 6] = Inr ?T" by code_simp
  have "extract_units ?T ?ten 10 = Inr (False, ?ten, ?T)"
    using extract_units_contract[OF c r, of 10 ?ten] by simp
  moreover have "\<exists>data' b'. extract_units ?T ?nine 9 = Inr (True, data', b') \<and>
      take (nat 9) data' = take (nat 9) (contents ?T) \<and>
      drop (nat 9) data' = drop (nat 9) ?nine \<and>
      contents b' = drop (nat 9) (contents ?T) \<and> used_space b' = used_space ?T - 9"
    using extract_units_contract[OF c r, of 9 ?nine] by simp
  moreover have "extract_units ?T ?nine 9 =
      Inr (True, [6, 7, 8, 9, 10, 11, 12, 13, 14], ?T\<lparr>m_used_slots := 0, m_buffer_tail := 4\<rparr>)"
    by code_simp
  moreover have "contents ?T = [6, 7, 8, 9, 10, 11, 12, 13, 14]" by code_simp
  moreover have "contents (?T\<lparr>m_used_slots := 0, m_buffer_tail := 4\<rparr>) = []" by code_simp
  ultimately show ?thesis unfolding Let_def using c r by blast
qed

text \<open>
  C3: after \<open>reset\<close> the claim has \<open>used_space\<close> return 0. \<open>reset\<close> writes the two
  cursors only: with 3 units stored, \<open>used_space\<close> is still 3 after it. (An extract of
  a positive count does fail afterwards, as the claim says.)
\<close>

theorem reset_keeps_used_slots:
  "(let B = \<lparr>m_unit_size = 1, m_unit_count = 10, m_buffer_head = 3, m_buffer_tail = 0,
             m_buffer = [1, 2, 3, 0, 0, 0, 0, 0, 0, 0], m_used_slots = 3\<rparr>
    in construct_then 1 zeroed 10 [Insert [1, 2, 3] 3] = Inr B \<and>
       used_space (reset B) = 3 \<and>
       extract_units (reset B) [0] 1 = Inr (False, [0], reset B))"
  by code_simp

text \<open>
  C4: first in, first out. With a unit of two bytes the cursor address is doubled
  (see C10): units 3 and 4 are written to elements 4 and 5, and an extract of the four
  stored units returns 1, 2 and two elements that were never written.
\<close>

theorem fifo_lost_for_two_byte_units:
  "(let B = \<lparr>m_unit_size = 2, m_unit_count = 10, m_buffer_head = 4, m_buffer_tail = 0,
             m_buffer = [1, 2, 0, 0, 3, 4, 0, 0, 0, 0], m_used_slots = 4\<rparr>
    in construct_then 2 zeroed 10 [Insert [1, 2] 2, Insert [3, 4] 2] = Inr B \<and>
       extract_units B [9, 9, 9, 9] 4 =
         Inr (True, [1, 2, 0, 0], B\<lparr>m_used_slots := 0, m_buffer_tail := 4\<rparr>))"
  by code_simp

text \<open>
  C5: copying from a non-empty source gives the destination the source's units. A
  full source whose head equals its tail is taken for an empty one: copy assignment
  leaves the destination empty. Copy construction from a source whose cursors differ
  stops at the assertion, the new object having no storage and unit size 0.
\<close>

theorem copy_of_full_source_copies_nothing:
  "(let S = \<lparr>m_unit_size = 1, m_unit_count = 4, m_buffer_head = 2, m_buffer_tail = 2,
             m_buffer = [5, 6, 3, 4], m_used_slots = 4\<rparr>;
        D = \<lparr>m_unit_size = 1, m_unit_count = 4, m_buffer_head = 0, m_buffer_tail = 0,
             m_buffer = [0, 0, 0, 0], m_used_slots = 0\<rparr>
    in construct_then 1 zeroed 4
         [Insert [1, 2, 3] 3, Extract [0, 0] 2, Insert [4] 1, Insert [5] 1, Insert [6] 1] = Inr S \<and>
       used_space S = 4 \<and> contents S = [3, 4, 5, 6] \<and>
       CircularBuffer_ctor 1 zeroed 4 = Inr D \<and>
       copy_assign D S = Inr D \<and> used_space D = 0 \<and>
       extract_units D [0, 0, 0, 0] 4 = Inr (False, [0, 0, 0, 0], D) \<and>
       copy_construct \<lparr>m_unit_size = 1, m_unit_count = 4, m_buffer_head = 3, m_buffer_tail = 0,
                       m_buffer = [1, 2, 3, 0 :: nat], m_used_slots = 3\<rparr> = Inl AssertionFailed)"
  by code_simp

text \<open>
  C6: the claim has both cursors strictly below the capacity at all times. A cursor
  that reaches the end stays equal to the capacity until a later call wraps it: after
  4 units go into a fresh buffer of capacity 4 the head is 4.
\<close>

theorem head_reaches_capacity:
  "(let B = \<lparr>m_unit_size = 1, m_unit_count = 4, m_buffer_head = 4, m_buffer_tail = 0,
             m_buffer = [1, 2, 3, 4], m_used_slots = 4\<rparr>
    in construct_then 1 zeroed 4 [Insert [1, 2, 3, 4] 4] = Inr B \<and>
       \<not> m_buffer_head B < m_unit_count B)"
  by code_simp

text \<open>
  C6, as amended: in every state reached from a freshly constructed buffer of capacity
  \<open>n > 0\<close> by calls of \<open>insert_units\<close> and \<open>extract_units\<close>, the capacity is still \<open>n\<close>
  and both cursors lie between 0 and \<open>n\<close> inclusive.
\<close>

theorem cursors_within_capacity:
  assumes "0 < n" and "CircularBuffer_ctor sz cells n = Inr b0" and "run b0 calls = Inr b"
  shows "m_unit_count b = n \<and> 0 \<le> m_buffer_head b \<and> m_buffer_head b \<le> n \<and>
         0 \<le> m_buffer_tail b \<and> m_buffer_tail b \<le> n"
proof -
  from ctor_inv[OF assms(2)] have "buffer_inv b0" and "m_unit_count b0 = n" by simp_all
  with run_inv[OF _ assms(3)] have "buffer_inv b" and "m_unit_count b = n" by simp_all
  then show ?thesis by (simp add: buffer_inv_def)
qed

theorem cursors_within_capacity_witness:
  "(let S = \<lparr>m_unit_size = 1, m_unit_count = 4, m_buffer_head = 0, m_buffer_tail = 0,
              m_buffer = [0, 0, 0, 0], m_used_slots = 0\<rparr>;
        B = \<lparr>m_unit_size = 1, m_unit_count = 4, m_buffer_head = 4, m_buffer_tail = 4,
             m_buffer = [1, 2, 3, 4], m_used_slots = 0\<rparr>
    in CircularBuffer_ctor 1 zeroed 4 = Inr S \<and>
       run S [Insert [1, 2, 3, 4] 4, Extract [0, 0, 0, 0] 4] = Inr B \<and>
       m_unit_count B = 4 \<and> 0 \<le> m_buffer_head B \<and> m_buffer_head B \<le> 4 \<and>
       0 \<le> m_buffer_tail B \<and> m_buffer_tail B \<le> 4)"
proof -
  let ?S = "\<lparr>m_unit_size = 1, m_unit_count = 4, m_buffer_head = 0, m_buffer_tail = 0,
              m_buffer = [0, 0, 0, 0::nat], m_used_slots = 0\<rparr>"
  let ?T = "\<lparr>m_unit_size = 1, m_unit_count = 4, m_buffer_head = 4, m_buffer_tail = 4,
             m_buffer = [1, 2, 3, 4::nat], m_used_slots = 0\<rparr>"
  have pos: "(0::int) < 4" by simp
  have c: "CircularBuffer_ctor 1 zeroed 4 = Inr ?S" by code_simp
  have r: "run ?S [Insert [1, 2, 3, 4] 4, Extract [0, 0, 0, 0] 4] = Inr ?T" by code_simp
  from cursors_within_capacity[OF pos c r] c r show ?thesis
    unfolding Let_def by blast
qed

text \<open>
  C7: failure atomicity. A call of \<open>insert_units\<close> or \<open>extract_units\<close> that returns
  false leaves the buffer (cursors, counter and storage) and the caller's receiving
  array exactly as they were.
\<close>

theorem failure_atomic:
  "(insert_units b data n = Inr (False, b') \<longrightarrow> b' = b) \<and>
   (extract_units b out m = Inr (False, out', b'') \<longrightarrow> out' = out \<and> b'' = b)"
  using insert_units_FalseD extract_units_FalseD by blast

theorem failure_atomic_witness:
  "(let B = \<lparr>m_unit_size = 1, m_unit_count = 4, m_buffer_head = 4, m_buffer_tail = 0,
             m_buffer = [1, 2, 3, 4::nat], m_used_slots = 4\<rparr>
    in insert_units B [5] 1 = Inr (False, B) \<and>
       extract_units B [0, 0, 0, 0, 0] 5 = Inr (False, [0, 0, 0, 0, 0], B))"
proof -
  let ?B = "\<lparr>m_unit_size = 1, m_unit_count = 4, m_buffer_head = 4, m_buffer_tail = 0,
             m_buffer = [1, 2, 3, 4::nat], m_used_slots = 4\<rparr>"
  have i: "insert_units ?B [5] 1 = Inr (False, ?B)"
    by code_simp
  have e: "extract_units ?B [0, 0, 0, 0, 0] 5 = Inr (False, [0, 0, 0, 0, 0], ?B)"
    by code_simp
  from failure_atomic[of ?B "[5]" 1 ?B "[0, 0, 0, 0, 0]" 5 "[0, 0, 0, 0, 0]" ?B] i e
  show ?thesis unfolding Let_def by simp
qed

text \<open>
  C8: frame conditions. \<open>insert_units\<close> never changes the tail, and \<open>extract_units\<close>
  never changes the head or the storage, whatever they return.
\<close>

theorem frame:
  "(insert_units b data n = Inr (ok, b') \<longrightarrow> m_buffer_tail b' = m_buffer_tail b) \<and>
   (extract_units b out m = Inr (ok', out', b'') \<longrightarrow>
      m_buffer_head b'' = m_buffer_head b \<and> m_buffer b'' = m_buffer b)"
proof -
  have "m_buffer_tail b' = m_buffer_tail b" if "insert_units b data n = Inr (ok, b')"
  proof (cases ok)
    case True
    with that insert_units_TrueD[of b data n b'] show ?thesis by auto
  next
    case False
    with that insert_units_FalseD[of b data n b'] show ?thesis by simp
  qed
  moreover have "m_buffer_head b'' = m_buffer_head b \<and> m_buffer b'' = m_buffer b"
    if "extract_units b out m = Inr (ok', out', b'')"
  proof (cases ok')
    case True
    with that extract_units_TrueD[of b out m out' b''] show ?thesis by auto
  next
    case False
    with that extract_units_FalseD[of b out m out' b''] show ?thesis by simp
  qed
  ultimately show ?thesis by blast
qed

theorem frame_witness:
  "(let B = \<lparr>m_unit_size = 1, m_unit_count = 4, m_buffer_head = 3, m_buffer_tail = 1,
             m_buffer = [1, 2, 3, 0::nat], m_used_slots = 2\<rparr>;
        I = B\<lparr>m_buffer := [1, 2, 3, 4], m_used_slots := 3, m_buffer_head := 4\<rparr>;
        E = B\<lparr>m_used_slots := 0, m_buffer_tail := 3\<rparr>
    in insert_units B [4] 1 = Inr (True, I) \<and> m_buffer_tail I = m_buffer_tail B \<and>
       extract_units B [0, 0] 2 = Inr (True, [2, 3], E) \<and>
       m_buffer_head E = m_buffer_head B \<and> m_buffer E = m_buffer B)"
proof -
  let ?B = "\<lparr>m_unit_size = 1, m_unit_count = 4, m_buffer_head = 3, m_buffer_tail = 1,
             m_buffer = [1, 2, 3, 0::nat], m_used_slots = 2\<rparr>"
  let ?I = "?B\<lparr>m_buffer := [1, 2, 3, 4], m_used_slots := 3, m_buffer_head := 4\<rparr>"
  let ?E = "?B\<lparr>m_used_slots := 0, m_buffer_tail := 3\<rparr>"
  have i: "insert_units ?B [4] 1 = Inr (True, ?I)"
    by code_simp
  have e: "extract_units ?B [0, 0] 2 = Inr (True, [2, 3], ?E)"
    by code_simp
  from frame[of ?B "[4]" 1 True ?I "[0, 0]" 2 True "[2, 3]" ?E] i e
  show ?thesis unfolding Let_def by blast
qed

text \<open>
  C9: when the source's head equals its tail (an empty source, or a full one whose
  cursors coincide), copy assignment returns the destination unchanged and copy
  construction leaves the new object with its default members.
\<close>

theorem transfer_skipped_when_cursors_coincide:
  "m_buffer_head source = m_buffer_tail source \<Longrightarrow>
     copy_assign this source = Inr this \<and> copy_construct source = Inr default_members"
  by (simp add: copy_assign_def copy_construct_def transfer_def)

theorem transfer_skipped_witness:
  "(let empty_source = \<lparr>m_unit_size = 1, m_unit_count = 4, m_buffer_head = 0,
          m_buffer_tail = 0, m_buffer = [0, 0, 0, 0::nat], m_used_slots = 0\<rparr>;
        full_source = \<lparr>m_unit_size = 1, m_unit_count = 4, m_buffer_head = 2,
          m_buffer_tail = 2, m_buffer = [5, 6, 3, 4], m_used_slots = 4\<rparr>;
        dest = \<lparr>m_unit_size = 1, m_unit_count = 4, m_buffer_head = 2,
          m_buffer_tail = 0, m_buffer = [7, 8, 0, 0], m_used_slots = 2\<rparr>
    in m_buffer_head empty_source = m_buffer_tail empty_source \<and>
       copy_assign dest empty_source = Inr dest \<and> used_space dest = 2 \<and>
       m_buffer_head full_source = m_buffer_tail full_source \<and>
       copy_assign dest full_source = Inr dest \<and>
       copy_construct full_source = Inr default_members)"
proof -
  let ?e = "\<lparr>m_unit_size = 1, m_unit_count = 4, m_buffer_head = 0,
          m_buffer_tail = 0, m_buffer = [0, 0, 0, 0::nat], m_used_slots = 0\<rparr>"
  let ?f = "\<lparr>m_unit_size = 1, m_unit_count = 4, m_buffer_head = 2,
          m_buffer_tail = 2, m_buffer = [5, 6, 3, 4::nat], m_used_slots = 4\<rparr>"
  let ?d = "\<lparr>m_unit_size = 1, m_unit_count = 4, m_buffer_head = 2,
          m_buffer_tail = 0, m_buffer = [7, 8, 0, 0::nat], m_used_slots = 2\<rparr>"
  have he: "m_buffer_head ?e = m_buffer_tail ?e" by simp
  have hf: "m_buffer_head ?f = m_buffer_tail ?f" by simp
  from transfer_skipped_when_cursors_coincide[OF he, of ?d]
       transfer_skipped_when_cursors_coincide[OF hf, of ?d]
  show ?thesis unfolding Let_def by (simp add: used_space_def)
qed

text \<open>
  C10: the claim has the cursor be the element index. The address is the cursor times
  \<open>m_unit_size\<close>, taken as an element offset: with a four-byte unit and the head at 1 the
  next insert goes to element 4, outside the 4 elements of the storage.
\<close>

theorem cursor_address_scaled_twice:
  "(let B = \<lparr>m_unit_size = 4, m_unit_count = 4, m_buffer_head = 1, m_buffer_tail = 0,
             m_buffer = [1, 0, 0, 0], m_used_slots = 1\<rparr>
    in construct_then 4 zeroed 4 [Insert [1] 1] = Inr B \<and>
       get_buffer_head B = 4 \<and>
       insert_units B [2] 1 = Inl OutOfBounds)"
  by code_simp

end
